theory Spec2Isabelle
  imports Complex_Main "HOL-Library.Word"
begin

unbundle bit_operations_syntax

section \<open>Data model\<close>

text \<open>
  A Node \<open>Buffer\<close> is a list of bytes. A JavaScript number is the real number its
  double holds; the arithmetic of \<open>speedToDelay\<close> and \<open>delayToSpeed\<close> rounds every
  result to the nearest double (\<open>fl\<close> below). Where the source applies the integer
  operators \<open>>>\<close> and \<open>&\<close> the number is an \<open>int\<close>.
\<close>

type_synonym byte = "8 word"
type_synonym Buffer = "byte list"

datatype error = Error string | RangeError | TypeError

text \<open>The value a promise of the send path is settled with.\<close>

datatype outcome = Resolved Buffer | Rejected error

text \<open>\<open>types.ts\<close>\<close>

record RgbColorType =
  red :: real
  green :: real
  blue :: real

datatype pattern_id = PatternName string | PatternCode nat

record StateType =
  type :: nat
  on :: bool
  mode :: "string option"
  pattern :: "pattern_id option"
  speed :: real
  color :: RgbColorType
  warm_white :: nat
  cold_white :: nat

text \<open>
  \<open>ControlOptionsType\<close>, with the four flags of \<open>options.ack\<close> flattened into
  \<open>ack_power\<close>, \<open>ack_color\<close>, \<open>ack_pattern\<close> and \<open>ack_customPattern\<close>. The two
  timeout lengths are \<open>None\<close> where the source has \<open>undefined\<close>.
\<close>

record ControlOptionsType =
  ack_power :: bool
  ack_color :: bool
  ack_pattern :: bool
  ack_customPattern :: bool
  applyMasks :: bool
  coldWhiteSupport :: bool
  commandTimeoutLength :: "nat option"
  connectTimeoutLength :: "nat option"
  logAllReceived :: bool

text \<open>
  An entry of \<open>commandQueue\<close>: \<open>{ expectReply, resolve, reject, command }\<close>. The two
  continuations \<open>resolve\<close> and \<open>reject\<close> of an entry always belong to one promise (every
  caller of \<open>sendCommand\<close> passes the pair it gets from \<open>new Promise\<close>), so the entry
  holds the number of that promise, \<open>pid\<close>.
\<close>

record cmd =
  expectReply :: bool
  pid :: nat
  command :: Buffer

text \<open>
  The callbacks handed to \<open>setTimeout\<close>: the receive timer calls \<open>receiveData(true)\<close>,
  the command timer calls \<open>handleCommandTimeout()\<close>, the connect timer calls
  \<open>socketErrorHandler(new Error('Connection timeout reached'), reject)\<close> with the
  \<open>reject\<close> it closes over.
\<close>

datatype timer = ReceiveTimer | CommandTimer | ConnectTimer nat

text \<open>
  The fields of class \<open>Control\<close>, followed by the part of the runtime the instance acts
  on: the promises created so far and the order in which they were settled, the sockets
  created by \<open>net.connect\<close> (socket \<open>k\<close> is the \<open>k\<close>-th one; \<open>opened ! k\<close> is the
  \<open>reject\<close> its handlers close over), the sockets on which \<open>end()\<close> was called, the
  writes issued (socket and queue entry), and the timers (\<open>timers ! h = Some cb\<close> while
  timer \<open>h\<close> is pending).
\<close>

record Control =
  ipAddress :: string
  port :: nat
  options :: ControlOptionsType
  commandQueue :: "cmd list"
  socket :: "nat option"
  receivedData :: Buffer
  receiveTimeout :: "nat option"
  connectTimeout :: "nat option"
  commandTimeout :: "nat option"
  preventDataSending :: bool
  lastColor :: RgbColorType
  lastWW :: real
  lastCW :: real
  promises :: nat
  settled :: "(nat \<times> outcome) list"
  opened :: "nat list"
  ended :: "nat list"
  writes :: "(nat \<times> cmd) list"
  timers :: "timer option list"

section \<open>Conversion helpers\<close>

definition clamp :: "real \<Rightarrow> real \<Rightarrow> real \<Rightarrow> real" where
  "clamp v mn mx = min mx (max mn v)"

text \<open>
  Rounding to the nearest double, ties to even: \<open>expo n x\<close> is the binary exponent
  of a positive \<open>x\<close>, searched in at most \<open>n\<close> halvings or doublings; a double has
  53 significant bits, so the spacing of the doubles around \<open>x\<close> is
  \<open>pow2 (expo n x - 52)\<close>. The limited exponent range of a double (overflow to
  infinity, subnormal numbers) is not modelled, nor is NaN.
\<close>

fun expo :: "nat \<Rightarrow> real \<Rightarrow> int" where
  "expo 0 x = 0"
| "expo (Suc n) x =
     (if 2 \<le> x then expo n (x / 2) + 1
      else if x < 1 then expo n (x * 2) - 1
      else 0)"

definition pow2 :: "int \<Rightarrow> real" where
  "pow2 e = (if 0 \<le> e then 2 ^ nat e else 1 / 2 ^ nat (- e))"

definition roundTiesToEven :: "real \<Rightarrow> int" where
  "roundTiesToEven q =
     (let n = \<lfloor>q\<rfloor>;
          r = q - of_int n
      in if r < 1 / 2 then n
         else if 1 / 2 < r then n + 1
         else if even n then n else n + 1)"

definition fl :: "real \<Rightarrow> real" where
  "fl x =
     (if x = 0 then 0
      else let e = expo 1100 \<bar>x\<bar>;
               ulp = pow2 (e - 52)
           in sgn x * (of_int (roundTiesToEven (\<bar>x\<bar> / ulp)) * ulp))"

text \<open>
  \<open>100 - (delay / 30) * 100\<close> and \<open>30 - (speed / 100) * 30 + 1\<close>, each operation
  rounded.
\<close>

definition delayToSpeed :: "real \<Rightarrow> real" where
  "delayToSpeed delay =
     (let delay = clamp delay 1 31;
          delay = fl (delay - 1)
      in fl (100 - fl (fl (delay / 30) * 100)))"

definition speedToDelay :: "real \<Rightarrow> real" where
  "speedToDelay spd =
     (let spd = clamp spd 0 100
      in fl (fl (30 - fl (fl (spd / 100) * 30)) + 1))"

text \<open>
  \<open>Buffer.from(array)\<close> stores each number as an unsigned byte: the fraction is dropped
  (towards zero) and the integer is taken modulo 256.
\<close>

definition toUint8 :: "real \<Rightarrow> byte" where
  "toUint8 x = word_of_int (if 0 \<le> x then \<lfloor>x\<rfloor> else \<lceil>x\<rceil>)"

definition Buffer_from :: "real list \<Rightarrow> Buffer" where
  "Buffer_from xs = map toUint8 xs"

section \<open>Response decoding\<close>

text \<open>The reads of a \<open>Buffer\<close> throw a \<open>RangeError\<close> out of range.\<close>

definition readUInt8 :: "Buffer \<Rightarrow> nat \<Rightarrow> error + nat" where
  "readUInt8 buf off = (if off < length buf then Inr (unat (buf ! off)) else Inl RangeError)"

definition readUInt16BE :: "Buffer \<Rightarrow> nat \<Rightarrow> error + nat" where
  "readUInt16BE buf off =
     (if off + 1 < length buf then Inr (unat (buf ! off) * 256 + unat (buf ! (off + 1)))
      else Inl RangeError)"

definition andThen :: "error + 'a \<Rightarrow> ('a \<Rightarrow> error + 'b) \<Rightarrow> error + 'b" where
  "andThen r f = (case r of Inl e \<Rightarrow> Inl e | Inr v \<Rightarrow> f v)"

definition determineMode :: "Buffer \<Rightarrow> error + string option" where
  "determineMode resp =
     andThen (readUInt8 resp 3) (\<lambda>b3.
     andThen (if b3 = 0x61 then Inr True
              else if b3 = 0 then andThen (readUInt8 resp 4) (\<lambda>b4. Inr (b4 = 0x61))
              else Inr False) (\<lambda>isColor.
       if isColor then Inr (Some ''color'')
       else if b3 = 0x62 then Inr (Some ''special'')
       else if b3 = 0x60 then Inr (Some ''custom'')
       else if b3 \<ge> 0x25 \<and> b3 \<le> 0x38 then Inr (Some ''pattern'')
       else andThen (readUInt16BE resp 3) (\<lambda>w.
         if w \<ge> 0x64 \<and> w \<le> 0x018f then Inr (Some ''ia_pattern'') else Inr None)))"

text \<open>
  The table \<open>patterns\<close> of \<open>constants.ts\<close> (pattern name to code) is a parameter: a list
  of pairs in the order in which \<open>for ... in\<close> enumerates the names.
\<close>

definition determinePattern :: "(string \<times> nat) list \<Rightarrow> Buffer \<Rightarrow> error + pattern_id option" where
  "determinePattern patterns resp =
     andThen (readUInt8 resp 3) (\<lambda>b3.
       case (if b3 \<ge> 0x25 \<and> b3 \<le> 0x38 then find (\<lambda>(patternName, code). code = b3) patterns
             else None) of
         Some (patternName, code) \<Rightarrow> Inr (Some (PatternName patternName))
       | None \<Rightarrow>
           andThen (readUInt16BE resp 3) (\<lambda>w.
             if w \<ge> 0x64 \<and> w \<le> 0x018f then Inr (Some (PatternCode (w - 99))) else Inr None))"

section \<open>Promises, timers and the socket\<close>

text \<open>
  Calling \<open>resolve\<close> or \<open>reject\<close> of a promise settles it the first time only; later
  calls have no effect.
\<close>

definition settle :: "nat \<Rightarrow> outcome \<Rightarrow> Control \<Rightarrow> Control" where
  "settle p out s =
     (if p \<in> fst ` set (settled s) then s else s\<lparr>settled := settled s @ [(p, out)]\<rparr>)"

definition setTimeout :: "timer \<Rightarrow> Control \<Rightarrow> Control" where
  "setTimeout cb s = s\<lparr>timers := timers s @ [Some cb]\<rparr>"

definition clearTimeout :: "nat \<Rightarrow> Control \<Rightarrow> Control" where
  "clearTimeout h s = s\<lparr>timers := (timers s)[h := None]\<rparr>"

text \<open>\<open>if (this.socket != null) this.socket.end(); this.socket = null;\<close>\<close>

definition endSocket :: "Control \<Rightarrow> Control" where
  "endSocket s =
     (case socket s of
        Some k \<Rightarrow> s\<lparr>ended := ended s @ [k], socket := None\<rparr>
      | None \<Rightarrow> s\<lparr>socket := None\<rparr>)"

section \<open>Connection and queue manager\<close>

text \<open>
  The constructor, given the options as they are after its merge with the defaults.
\<close>

definition constructor :: "string \<Rightarrow> nat \<Rightarrow> ControlOptionsType \<Rightarrow> Control" where
  "constructor ip prt opts =
     \<lparr>ipAddress = ip, port = prt, options = opts, commandQueue = [], socket = None,
      receivedData = [], receiveTimeout = None, connectTimeout = None,
      commandTimeout = None, preventDataSending = False,
      lastColor = \<lparr>red = 0, green = 0, blue = 0\<rparr>, lastWW = 0, lastCW = 0,
      promises = 0, settled = [], opened = [], ended = [], writes = [], timers = []\<rparr>"

text \<open>The options of an instance created without any.\<close>

definition defaultOptions :: ControlOptionsType where
  "defaultOptions =
     \<lparr>ack_power = True, ack_color = True, ack_pattern = True, ack_customPattern = True,
      applyMasks = False, coldWhiteSupport = False, commandTimeoutLength = Some 1000,
      connectTimeoutLength = None, logAllReceived = False\<rparr>"

text \<open>
  \<open>handleNextCommand\<close>. The write is recorded with the socket and the entry written;
  its callback is \<open>writeCallback\<close> below. A write on \<open>this.socket = null\<close> throws.
\<close>

definition handleNextCommand :: "Control \<Rightarrow> error + Control" where
  "handleNextCommand s =
     (case commandQueue s of
        [] \<Rightarrow> Inr (endSocket s)
      | c # _ \<Rightarrow>
          (case socket s of
             None \<Rightarrow> Inl TypeError
           | Some k \<Rightarrow> Inr (s\<lparr>writes := writes s @ [(k, c)]\<rparr>)))"

definition receiveData :: "bool \<Rightarrow> Buffer \<Rightarrow> Control \<Rightarrow> error + Control" where
  "receiveData emp data s0 =
     (let s = (case commandTimeout s0 of
                 Some h \<Rightarrow> (clearTimeout h s0)\<lparr>commandTimeout := None\<rparr>
               | None \<Rightarrow> s0)
      in if emp then
           let s1 = (case commandQueue s of
                       [] \<Rightarrow> s
                     | finished_command # _ \<Rightarrow>
                         settle (pid finished_command) (Resolved (receivedData s)) s);
               s2 = s1\<lparr>receivedData := []\<rparr>;
               s3 = s2\<lparr>commandQueue := tl (commandQueue s2)\<rparr>
           in handleNextCommand s3
         else
           let s1 = s\<lparr>receivedData := receivedData s @ data\<rparr>;
               s2 = (case receiveTimeout s1 of Some h \<Rightarrow> clearTimeout h s1 | None \<Rightarrow> s1);
               h = length (timers s2)
           in Inr ((setTimeout ReceiveTimer s2)\<lparr>receiveTimeout := Some h\<rparr>))"

definition handleCommandTimeout :: "Control \<Rightarrow> error + Control" where
  "handleCommandTimeout s0 =
     (let s = s0\<lparr>commandTimeout := None\<rparr>;
          s1 = (case commandQueue s of
                  [] \<Rightarrow> s
                | timedout_command # _ \<Rightarrow>
                    settle (pid timedout_command) (Rejected (Error ''Command timed out'')) s);
          s2 = s1\<lparr>receivedData := []\<rparr>;
          s3 = s2\<lparr>commandQueue := tl (commandQueue s2)\<rparr>
      in handleNextCommand s3)"

text \<open>
  The callback \<open>handleNextCommand\<close> passes to \<open>socket.write\<close> for the entry \<open>c\<close>.
\<close>

definition writeCallback :: "cmd \<Rightarrow> Control \<Rightarrow> error + Control" where
  "writeCallback c s =
     (if \<not> expectReply c then receiveData True [] s
      else (case commandTimeoutLength (options s) of
              None \<Rightarrow> Inr s
            | Some t \<Rightarrow>
                let h = length (timers s)
                in Inr ((setTimeout CommandTimer s)\<lparr>commandTimeout := Some h\<rparr>)))"

definition socketErrorHandler :: "error \<Rightarrow> nat \<Rightarrow> Control \<Rightarrow> Control" where
  "socketErrorHandler err reject s0 =
     (let s1 = s0\<lparr>preventDataSending := True\<rparr>;
          s2 = settle reject (Rejected err) s1;
          s3 = endSocket s2;
          s4 = foldl (\<lambda>s c. settle (pid c) (Rejected err) s) s3 (commandQueue s3)
      in s4\<lparr>commandQueue := []\<rparr>)"

text \<open>The checksum loop of \<open>sendCommand\<close>.\<close>

definition checksum :: "Buffer \<Rightarrow> nat" where
  "checksum buf = (foldl (\<lambda>chk b. chk + unat b) 0 buf) AND 0xff"

text \<open>
  \<open>sendCommand(buf, expectReply, resolve, reject)\<close>, with \<open>p\<close> the promise of
  \<open>resolve\<close> and \<open>reject\<close>.
\<close>

definition sendCommand :: "Buffer \<Rightarrow> bool \<Rightarrow> nat \<Rightarrow> Control \<Rightarrow> Control" where
  "sendCommand buf expReply p s =
     (let cmnd = buf @ [of_nat (checksum buf)];
          entry = \<lparr>expectReply = expReply, pid = p, command = cmnd\<rparr>
      in if commandQueue s = [] \<and> socket s = None then
           let s1 = s\<lparr>commandQueue := commandQueue s @ [entry]\<rparr>;
               s2 = s1\<lparr>preventDataSending := False\<rparr>;
               s3 = s2\<lparr>socket := Some (length (opened s2)), opened := opened s2 @ [p]\<rparr>
           in (case connectTimeoutLength (options s3) of
                 None \<Rightarrow> s3
               | Some t \<Rightarrow>
                   if t = 0 then s3
                   else let h = length (timers s3)
                        in (setTimeout (ConnectTimer p) s3)\<lparr>connectTimeout := Some h\<rparr>)
         else s\<lparr>commandQueue := commandQueue s @ [entry]\<rparr>)"

text \<open>The callback of \<open>net.connect\<close>.\<close>

definition connectCallback :: "Control \<Rightarrow> error + Control" where
  "connectCallback s0 =
     (let s = (case connectTimeout s0 of
                 Some h \<Rightarrow> (clearTimeout h s0)\<lparr>connectTimeout := None\<rparr>
               | None \<Rightarrow> s0)
      in if \<not> preventDataSending s then handleNextCommand s else Inr s)"

text \<open>
  \<open>new Promise((resolve, reject) => { this.sendCommand(buf, expectReply, resolve, reject) })\<close>:
  the executor runs at once; the new promise is number \<open>promises s\<close>.
\<close>

definition submit :: "Buffer \<Rightarrow> bool \<Rightarrow> Control \<Rightarrow> nat \<times> Control" where
  "submit buf expReply s =
     (let p = promises s
      in (p, sendCommand buf expReply p (s\<lparr>promises := p + 1\<rparr>)))"

section \<open>Control facade\<close>

text \<open>
  A facade operation returns a promise together with the instance it leaves behind:
  \<open>Inl e\<close> is \<open>Promise.reject(e)\<close>, \<open>Inr p\<close> is the promise \<open>p\<close> of the send path,
  continued by \<open>.then((data) => data.length > 0 || !ack)\<close>, which is \<open>thenAck\<close>.
  The optional \<open>callback\<close> of each operation only observes that promise and is left
  out. The pattern code of \<open>setIAPattern\<close> is an integer, the speeds are numbers.
  The continuations and the promise an operation returns are the subject of the section
  on promise chains below. Of the colour operations \<open>setColor\<close> and what it calls are
  modelled; \<open>setPattern\<close> and the other convenience operations are left out.
\<close>

definition thenAck :: "bool \<Rightarrow> outcome \<Rightarrow> error + bool" where
  "thenAck ack out =
     (case out of
        Resolved data \<Rightarrow> Inr (length data > 0 \<or> \<not> ack)
      | Rejected e \<Rightarrow> Inl e)"


definition setIAPattern :: "int \<Rightarrow> real \<Rightarrow> Control \<Rightarrow> (error + nat) \<times> Control" where
  "setIAPattern code spd s =
     (if code < 1 \<or> code > 300 then (Inl (Error ''Invalid code''), s)
      else
        let code = code + 99;
            bufferArray = [0x61];
            bufferArray = bufferArray @ [of_int (drop_bit 8 code)];
            bufferArray = bufferArray @ [of_int (code AND 0xff)];
            bufferArray = bufferArray @ [spd];
            bufferArray = bufferArray @ [0x0f];
            cmdBuf = Buffer_from bufferArray;
            (p, s') = submit cmdBuf (ack_pattern (options s)) s
        in (Inr p, s'))"










text \<open>
  The continuation of \<open>queryState\<close>, run on the bytes its promise is resolved with: the
  decoded state, or the error thrown, and the instance with the remembered colour and
  the option flags of the device type.
\<close>

definition decodeState :: "(string \<times> nat) list \<Rightarrow> Buffer \<Rightarrow> error + StateType" where
  "decodeState patterns data =
     andThen (determineMode data) (\<lambda>m.
     andThen (readUInt8 data 1) (\<lambda>ty.
     andThen (readUInt8 data 2) (\<lambda>pw.
     andThen (determinePattern patterns data) (\<lambda>pat.
     andThen (readUInt8 data 5) (\<lambda>d.
     andThen (readUInt8 data 6) (\<lambda>r.
     andThen (readUInt8 data 7) (\<lambda>g.
     andThen (readUInt8 data 8) (\<lambda>b.
     andThen (readUInt8 data 9) (\<lambda>ww.
     andThen (readUInt8 data 11) (\<lambda>cw.
       Inr \<lparr>type = ty, on = (pw = 0x23), mode = m, pattern = pat,
            speed = (if m \<noteq> Some ''ia_pattern'' then delayToSpeed (real d) else real d),
            color = \<lparr>red = real r, green = real g, blue = real b\<rparr>,
            warm_white = ww, cold_white = cw\<rparr>))))))))))"

definition queryState_then ::
  "(string \<times> nat) list \<Rightarrow> Buffer \<Rightarrow> Control \<Rightarrow> (error + StateType) \<times> Control" where
  "queryState_then patterns data s =
     (if length data < 14 then (Inl (Error ''Only got short reply''), s)
      else
        (case decodeState patterns data of
           Inl e \<Rightarrow> (Inl e, s)
         | Inr state \<Rightarrow>
             let s1 = s\<lparr>lastColor := \<lparr>red = red (color state), green = green (color state),
                                      blue = blue (color state)\<rparr>,
                        lastWW := real (warm_white state),
                        lastCW := real (cold_white state)\<rparr>;
                 opts = options s1;
                 s2 = (if type state = 0x25 then s1\<lparr>options := opts\<lparr>applyMasks := True\<rparr>\<rparr>
                       else if type state = 0x35
                         then s1\<lparr>options := opts\<lparr>applyMasks := True, coldWhiteSupport := True\<rparr>\<rparr>
                       else if type state = 0x44 then s1\<lparr>options := opts\<lparr>applyMasks := True\<rparr>\<rparr>
                       else s1)
             in (Inr state, s2)))"

section \<open>Events\<close>

text \<open>
  What can happen to an instance: a caller submits a frame through the send path; the
  connect callback of socket \<open>k\<close> runs; socket \<open>k\<close> emits \<open>error\<close> or \<open>data\<close>; the
  callback of the \<open>k\<close>-th write runs; the pending timer \<open>h\<close> fires. \<open>step\<close> is \<open>None\<close>
  for an event that cannot happen (a socket or write that does not exist, a timer that
  is not pending), and \<open>Some (Inl e)\<close> when the handler throws \<open>e\<close>. No other order
  is imposed on the events: a socket may report data or an error at any time after it
  was created, and a write callback may run whatever has happened since the write.
\<close>

datatype event =
    Submit Buffer bool
  | Connected nat
  | SockError nat error
  | SockData nat Buffer
  | WriteDone nat
  | Fire nat

definition fireTimer :: "timer \<Rightarrow> Control \<Rightarrow> error + Control" where
  "fireTimer cb s =
     (case cb of
        ReceiveTimer \<Rightarrow> receiveData True [] s
      | CommandTimer \<Rightarrow> handleCommandTimeout s
      | ConnectTimer reject \<Rightarrow>
          Inr (socketErrorHandler (Error ''Connection timeout reached'') reject s))"

definition step :: "Control \<Rightarrow> event \<Rightarrow> (error + Control) option" where
  "step s ev =
     (case ev of
        Submit buf expReply \<Rightarrow> Some (Inr (snd (submit buf expReply s)))
      | Connected k \<Rightarrow> if k < length (opened s) then Some (connectCallback s) else None
      | SockError k err \<Rightarrow>
          if k < length (opened s) then Some (Inr (socketErrorHandler err (opened s ! k) s))
          else None
      | SockData k data \<Rightarrow>
          if k < length (opened s) then Some (receiveData False data s) else None
      | WriteDone k \<Rightarrow>
          if k < length (writes s) then Some (writeCallback (snd (writes s ! k)) s) else None
      | Fire h \<Rightarrow>
          if h < length (timers s) then
            (case timers s ! h of
               None \<Rightarrow> None
             | Some cb \<Rightarrow> Some (fireTimer cb (s\<lparr>timers := (timers s)[h := None]\<rparr>)))
          else None)"

fun run :: "Control \<Rightarrow> event list \<Rightarrow> (error + Control) option" where
  "run s [] = Some (Inr s)"
| "run s (ev # evs) =
     (case step s ev of
        None \<Rightarrow> None
      | Some (Inl e) \<Rightarrow> Some (Inl e)
      | Some (Inr s') \<Rightarrow> run s' evs)"

section \<open>Promise chains\<close>




















section \<open>The invariant\<close>

text \<open>
  The promises settled so far, and the invariant of the queue manager: the promises
  settled, in the order of settling, followed by those of the queue, in queue order,
  are the promises created, in the order of creation; a queue that is not empty has a
  socket; the \<open>reject\<close> a socket or a connect timer closes over, and the entry of every
  write issued, is settled already or is the head of the queue.
\<close>

definition settledIds :: "Control \<Rightarrow> nat list" where
  "settledIds s = map fst (settled s)"

definition doneOrHead :: "Control \<Rightarrow> nat \<Rightarrow> bool" where
  "doneOrHead s p =
     (p \<in> set (settledIds s) \<or> (commandQueue s \<noteq> [] \<and> pid (hd (commandQueue s)) = p))"

definition inFlight :: "Control \<Rightarrow> cmd set" where
  "inFlight s = {c. c \<in> snd ` set (writes s) \<and> pid c \<notin> set (settledIds s)}"

definition queueInv :: "Control \<Rightarrow> bool" where
  "queueInv s =
     (settledIds s @ map pid (commandQueue s) = [0..<promises s] \<and>
      (commandQueue s \<noteq> [] \<longrightarrow> socket s \<noteq> None) \<and>
      (\<forall>p \<in> set (opened s). doneOrHead s p) \<and>
      (\<forall>p. Some (ConnectTimer p) \<in> set (timers s) \<longrightarrow> p \<in> set (opened s)) \<and>
      (\<forall>c \<in> inFlight s. commandQueue s \<noteq> [] \<and> hd (commandQueue s) = c))"

section \<open>The checksum of a frame\<close>

lemma foldl_add_unat: "foldl (\<lambda>chk b. chk + unat b) a buf = a + sum_list (map unat buf)"
  by (induction buf arbitrary: a) auto

lemma and_0xff_mod: "(n::nat) AND 0xff = n mod 256"
proof -
  have "n AND mask 8 = take_bit 8 n" by (simp only: take_bit_eq_mask)
  then show ?thesis by (simp add: take_bit_eq_mod mask_eq_exp_minus_1)
qed

lemma checksum_eq: "checksum buf = sum_list (map unat buf) mod 256"
  by (simp add: checksum_def foldl_add_unat and_0xff_mod)

lemma checksum_byte: "unat (of_nat (checksum buf) :: byte) = sum_list (map unat buf) mod 256"
  by (simp add: checksum_eq unat_of_nat)

text \<open>
  Claim C2. Every call of \<open>sendCommand\<close>, whatever the frame \<open>buf\<close>, the flag and the
  state of the instance, appends one entry to the queue; the bytes of that entry are the
  frame followed by exactly one more byte, and that byte is the sum of the bytes of the
  frame modulo 256. Every facade operation reaches the queue through \<open>sendCommand\<close>.
\<close>

theorem sendCommand_appends_checksum:
  "\<exists>entry. commandQueue (sendCommand buf er p s) = commandQueue s @ [entry] \<and>
     expectReply entry = er \<and> pid entry = p \<and>
     length (command entry) = length buf + 1 \<and>
     butlast (command entry) = buf \<and>
     unat (last (command entry)) = sum_list (map unat buf) mod 256"
  by (simp add: sendCommand_def Let_def checksum_byte setTimeout_def split: option.split)

section \<open>Speed and delay\<close>

lemma clamp_cases:
  "mn \<le> mx \<Longrightarrow> clamp v mn mx = (if v < mn then mn else if mx < v then mx else v)"
  by (simp add: clamp_def)

lemma clamp_idem: "mn \<le> mx \<Longrightarrow> clamp (clamp v mn mx) mn mx = clamp v mn mx"
  by (simp add: clamp_def)

text \<open>The rounding: \<open>pow2\<close> is the power of two, and \<open>expo\<close> finds the exponent.\<close>

lemma pow2_pos: "0 < pow2 e"
  by (simp add: pow2_def)

lemma pow2_Suc: "pow2 (e + 1) = 2 * pow2 e"
proof (cases "0 \<le> e")
  case True
  then show ?thesis by (simp add: pow2_def nat_add_distrib)
next
  case False
  then obtain k where k: "nat (- e) = Suc k" by (cases "nat (- e)") auto
  then have "nat (- (e + 1)) = k" by linarith
  with k False show ?thesis by (cases "e = - 1") (simp_all add: pow2_def)
qed

lemma pow2_pred: "2 * pow2 (e - 1) = pow2 e"
  using pow2_Suc [of "e - 1"] by simp

lemma expo_bounds:
  "0 < x \<Longrightarrow> 1 / 2 ^ n \<le> x \<Longrightarrow> x < 2 ^ Suc n \<Longrightarrow>
   pow2 (expo n x) \<le> x \<and> x < 2 * pow2 (expo n x)"
proof (induction n arbitrary: x)
  case 0
  then show ?case by (simp add: pow2_def)
next
  case (Suc n)
  show ?case
  proof (cases "2 \<le> x")
    case True
    have "pow2 (expo n (x / 2)) \<le> x / 2 \<and> x / 2 < 2 * pow2 (expo n (x / 2))"
    proof (rule Suc.IH)
      have "1 / 2 ^ n \<le> (1::real)" by (simp add: divide_le_eq)
      moreover from True have "1 \<le> x / 2" by simp
      ultimately show "1 / 2 ^ n \<le> x / 2" by linarith
    qed (use Suc.prems True in simp_all)
    with True show ?thesis by (simp add: pow2_Suc)
  next
    case False
    show ?thesis
    proof (cases "x < 1")
      case True
      have "pow2 (expo n (x * 2)) \<le> x * 2 \<and> x * 2 < 2 * pow2 (expo n (x * 2))"
      proof (rule Suc.IH)
        have "(1::real) \<le> 2 ^ n" by simp
        with True have "x < 2 ^ n" by linarith
        then show "x * 2 < 2 ^ Suc n" by simp
        show "1 / 2 ^ n \<le> x * 2" using Suc.prems(2) by (simp add: field_simps)
      qed (use Suc.prems in simp)
      with True False show ?thesis
        using pow2_pred [of "expo n (x * 2)"] by simp
    next
      case False
      with \<open>\<not> 2 \<le> x\<close> show ?thesis by (simp add: pow2_def)
    qed
  qed
qed

lemma roundTiesToEven_near: "\<bar>of_int (roundTiesToEven q) - q\<bar> \<le> 1 / 2"
  unfolding roundTiesToEven_def Let_def by (auto; linarith)

text \<open>
  \<open>fl x\<close> is a multiple of the spacing \<open>pow2 (e - 52)\<close> of the doubles of the binade
  \<open>pow2 e \<le> \<bar>x\<bar> < pow2 (e + 1)\<close> of \<open>x\<close>, and no further from \<open>x\<close> than half of it.
\<close>

lemma fl_nearest:
  assumes "x \<noteq> 0" and "1 / 2 ^ 1100 \<le> \<bar>x\<bar>" and "\<bar>x\<bar> < 2 ^ 1101"
  shows "\<exists>e n. pow2 e \<le> \<bar>x\<bar> \<and> \<bar>x\<bar> < pow2 (e + 1) \<and>
           fl x = sgn x * (of_int n * pow2 (e - 52)) \<and>
           \<bar>fl x - x\<bar> \<le> pow2 (e - 52) / 2"
proof -
  define e where "e = expo 1100 \<bar>x\<bar>"
  define u where "u = pow2 (e - 52)"
  define n where "n = roundTiesToEven (\<bar>x\<bar> / u)"
  have u: "0 < u" by (simp add: u_def pow2_pos)
  have b: "pow2 e \<le> \<bar>x\<bar> \<and> \<bar>x\<bar> < 2 * pow2 e"
    unfolding e_def by (rule expo_bounds) (use assms in simp_all)
  have f: "fl x = sgn x * (of_int n * u)"
    using assms(1) by (simp add: fl_def Let_def n_def u_def e_def)
  have "\<bar>of_int n - \<bar>x\<bar> / u\<bar> \<le> 1 / 2" unfolding n_def by (rule roundTiesToEven_near)
  then have "\<bar>of_int n - \<bar>x\<bar> / u\<bar> * u \<le> 1 / 2 * u"
    using u by (simp only: mult_le_cancel_right_pos)
  moreover have "of_int n * u - \<bar>x\<bar> = (of_int n - \<bar>x\<bar> / u) * u"
    using u by (simp add: field_simps)
  then have "\<bar>of_int n * u - \<bar>x\<bar>\<bar> = \<bar>of_int n - \<bar>x\<bar> / u\<bar> * u"
    using u by (simp only: abs_mult abs_of_pos)
  ultimately have "\<bar>of_int n * u - \<bar>x\<bar>\<bar> \<le> u / 2" by simp
  moreover have "\<bar>fl x - x\<bar> = \<bar>of_int n * u - \<bar>x\<bar>\<bar>"
  proof (cases "0 < x")
    case True
    then show ?thesis by (simp add: f)
  next
    case False
    with assms(1) have "x < 0" by simp
    then show ?thesis by (simp add: f abs_minus_commute)
  qed
  ultimately have "\<bar>fl x - x\<bar> \<le> u / 2" by simp
  with b f show ?thesis unfolding u_def by (auto simp: pow2_Suc)
qed

text \<open>Evaluation of the two conversions at a given number.\<close>

lemma expo_numeral [simp]:
  "expo (numeral k) x =
     (if 2 \<le> x then expo (pred_numeral k) (x / 2) + 1
      else if x < 1 then expo (pred_numeral k) (x * 2) - 1
      else 0)"
  by (simp add: numeral_eq_Suc)

lemma fl_unfold:
  "fl x = (if x = 0 then 0
           else sgn x * (of_int (roundTiesToEven (\<bar>x\<bar> / pow2 (expo 1100 \<bar>x\<bar> - 52))) *
                  pow2 (expo 1100 \<bar>x\<bar> - 52)))"
  by (simp add: fl_def Let_def)

lemma roundTiesToEven_unfold:
  "roundTiesToEven q =
     (if q - of_int \<lfloor>q\<rfloor> < 1 / 2 then \<lfloor>q\<rfloor>
      else if 1 / 2 < q - of_int \<lfloor>q\<rfloor> then \<lfloor>q\<rfloor> + 1
      else if even \<lfloor>q\<rfloor> then \<lfloor>q\<rfloor> else \<lfloor>q\<rfloor> + 1)"
  by (simp add: roundTiesToEven_def Let_def)

lemma speedToDelay_unfold:
  "speedToDelay s = fl (fl (30 - fl (fl (clamp s 0 100 / 100) * 30)) + 1)"
  by (simp add: speedToDelay_def)

lemma delayToSpeed_unfold:
  "delayToSpeed d = fl (100 - fl (fl (fl (clamp d 1 31 - 1) / 30) * 100))"
  by (simp add: delayToSpeed_def)

lemmas js_eval = speedToDelay_unfold delayToSpeed_unfold clamp_def fl_unfold
  roundTiesToEven_unfold pow2_def

lemma speedToDelay_clamps: "speedToDelay s = speedToDelay (clamp s 0 100)"
  by (simp add: speedToDelay_unfold clamp_idem)

lemma delayToSpeed_clamps: "delayToSpeed d = delayToSpeed (clamp d 1 31)"
  by (simp add: delayToSpeed_unfold clamp_idem)

lemma round_trip_upto_100:
  "\<forall>s \<in> set [0..<101].
     \<bar>delayToSpeed (speedToDelay (real s)) - real s\<bar> \<le> 1 / 2 ^ 46 \<and>
     \<bar>speedToDelay (real s) - (31 - 3 * real s / 10)\<bar> \<le> 1 / 2 ^ 48"
proof -
  define ok where
    "ok s = (\<bar>delayToSpeed (speedToDelay (real s)) - real s\<bar> \<le> 1 / 2 ^ 46 \<and>
             \<bar>speedToDelay (real s) - (31 - 3 * real s / 10)\<bar> \<le> 1 / 2 ^ 48)" for s :: nat
  have "\<forall>s \<in> set [0..<101]. ok s"
    apply (simp add: upt_rec del: set_upt)
    unfolding ok_def
    apply (intro conjI)
    apply (simp_all add: js_eval)
    done
  then show ?thesis unfolding ok_def .
qed

text \<open>
  Claim C5, as stated: \<open>delayToSpeed(speedToDelay(s)) == s\<close> for the integers of [0,100],
  but for rounding at the extremes. At \<open>s = 3\<close>, not an extreme, the doubles give
  \<open>3 - 1 / 2 ^ 46\<close>, that is 2.999999999999986.
\<close>

theorem speed_delay_inverse_counterexample:
  "delayToSpeed (speedToDelay 3) = 211106232532991 / 70368744177664 \<and>
   delayToSpeed (speedToDelay 3) \<noteq> 3"
  by (simp add: js_eval)

text \<open>
  Claim C5, amended. For every integer \<open>s\<close> in [0,100], \<open>delayToSpeed(speedToDelay(s))\<close>
  differs from \<open>s\<close> by at most \<open>1 / 2 ^ 46\<close> (rounding of the doubles), and not at all at
  the extremes 0 and 100; \<open>speedToDelay(s)\<close> is within \<open>1 / 2 ^ 48\<close> of the line
  \<open>31 - 3 s / 10\<close>, which falls from 31 at speed 0 to 1 at speed 100. For every number
  \<open>x\<close>, \<open>speedToDelay\<close> first clamps \<open>x\<close> into [0,100] (below 0 to 0, above 100 to 100)
  and \<open>delayToSpeed\<close> first clamps its argument into [1,31] (below 1 to 1, above 31 to
  31).
\<close>

theorem speed_delay_round_trip:
  assumes "s \<le> (100::nat)"
  shows "\<bar>delayToSpeed (speedToDelay (real s)) - real s\<bar> \<le> 1 / 2 ^ 46 \<and>
         \<bar>speedToDelay (real s) - (31 - 3 * real s / 10)\<bar> \<le> 1 / 2 ^ 48 \<and>
         delayToSpeed (speedToDelay 0) = 0 \<and> delayToSpeed (speedToDelay 100) = 100 \<and>
         speedToDelay 100 = 1 \<and> speedToDelay 0 = 31 \<and>
         speedToDelay x = speedToDelay (clamp x 0 100) \<and>
         clamp x 0 100 = (if x < 0 then 0 else if 100 < x then 100 else x) \<and>
         delayToSpeed d = delayToSpeed (clamp d 1 31) \<and>
         clamp d 1 31 = (if d < 1 then 1 else if 31 < d then 31 else d)"
proof -
  from assms have "s \<in> set [0..<101]" by simp
  with round_trip_upto_100
  have "\<bar>delayToSpeed (speedToDelay (real s)) - real s\<bar> \<le> 1 / 2 ^ 46 \<and>
        \<bar>speedToDelay (real s) - (31 - 3 * real s / 10)\<bar> \<le> 1 / 2 ^ 48"
    by blast
  moreover have "delayToSpeed (speedToDelay 0) = 0" "delayToSpeed (speedToDelay 100) = 100"
    "speedToDelay 100 = 1" "speedToDelay 0 = 31"
    by (simp_all add: js_eval)
  moreover have "clamp x 0 100 = (if x < 0 then 0 else if 100 < x then 100 else x)"
    "clamp d 1 31 = (if d < 1 then 1 else if 31 < d then 31 else d)"
    by (simp_all add: clamp_cases)
  ultimately show ?thesis
    using speedToDelay_clamps [of x] delayToSpeed_clamps [of d] by simp
qed

theorem speed_delay_round_trip_witness:
  "(3::nat) \<le> 100 \<and>
   \<bar>delayToSpeed (speedToDelay (real (3::nat))) - real (3::nat)\<bar> \<le> 1 / 2 ^ 46 \<and>
   speedToDelay 250 = speedToDelay 100 \<and> delayToSpeed (- 4) = delayToSpeed 1"
  using speed_delay_round_trip [of 3 250 "- 4"] by (simp add: clamp_def)

section \<open>Pattern frames\<close>

lemma toUint8_of_int [simp]: "toUint8 (of_int k) = word_of_int k"
  by (simp add: toUint8_def)

lemma toUint8_numeral [simp]: "toUint8 (numeral n) = numeral n" "toUint8 0 = 0" "toUint8 1 = 1"
  by (simp_all add: toUint8_def)

lemma submit_result:
  "fst (submit buf er s) = promises s"
  "commandQueue (snd (submit buf er s)) =
     commandQueue s @
       [\<lparr>expectReply = er, pid = promises s, command = buf @ [of_nat (checksum buf)]\<rparr>]"
  by (simp_all add: submit_def sendCommand_def Let_def setTimeout_def split: option.split)

lemma int_and_0xff_mod: "(k::int) AND 0xff = k mod 256"
proof -
  have "k AND mask 8 = take_bit 8 k" by (simp only: take_bit_eq_mask)
  then show ?thesis by (simp add: take_bit_eq_mod mask_eq_exp_minus_1)
qed

lemma setIAPattern_bytes:
  assumes "1 \<le> code" "code \<le> 300"
  shows "fst (setIAPattern code spd s) = Inr (promises s) \<and>
         butlast (command (last (commandQueue (snd (setIAPattern code spd s))))) =
           [0x61, word_of_int ((code + 99) div 256), word_of_int ((code + 99) mod 256),
            toUint8 spd, 0x0f]"
  using assms
  by (simp add: setIAPattern_def Let_def split_beta submit_result Buffer_from_def
      drop_bit_eq_div int_and_0xff_mod)

lemma big_endian_code:
  assumes "1 \<le> code" "code \<le> 300"
  shows "unat (word_of_int ((code + 99) div 256) :: byte) * 256 +
         unat (word_of_int ((code + 99) mod 256) :: byte) = nat (code + 99)"
proof -
  have 1: "0 \<le> (code + 99) div 256" "(code + 99) div 256 < 256" using assms by simp_all
  have 2: "0 \<le> (code + 99) mod 256" "(code + 99) mod 256 < 256" by simp_all
  have u1: "unat (word_of_int ((code + 99) div 256) :: byte) = nat ((code + 99) div 256)"
    using 1 by (simp add: unat_eq_nat_uint uint_word_of_int take_bit_eq_mod)
  have u2: "unat (word_of_int ((code + 99) mod 256) :: byte) = nat ((code + 99) mod 256)"
    using 2 by (simp add: unat_eq_nat_uint uint_word_of_int take_bit_eq_mod)
  define q r where "q = (code + 99) div 256" and "r = (code + 99) mod 256"
  have "code + 99 = q * 256 + r" by (simp add: q_def r_def)
  moreover have "nat (q * 256 + r) = nat q * 256 + nat r"
    using 1 2 unfolding q_def [symmetric] r_def [symmetric]
    by (simp add: nat_add_distrib nat_mult_distrib)
  ultimately have "nat (code + 99) = nat q * 256 + nat r" by simp
  then show ?thesis by (simp add: u1 u2 q_def r_def)
qed

text \<open>
  Claim C6. \<open>setIAPattern(1, 10)\<close> on any instance enqueues the frame
  \<open>61 00 64 0a 0f\<close> (opcode 0x61, then 100 as two bytes, high byte first) followed by
  its checksum \<open>de\<close>, and returns the promise of the send path. For every code below 1
  or above 300 the call returns a promise rejected with \<open>Error('Invalid code')\<close> and
  the instance is left exactly as it was: nothing is queued and no socket is opened.
\<close>

theorem setIAPattern_validation:
  "fst (setIAPattern 1 10 s) = Inr (promises s) \<and>
   command (last (commandQueue (snd (setIAPattern 1 10 s)))) =
     [0x61, 0x00, 0x64, 0x0a, 0x0f, 0xde] \<and>
   (code < 1 \<or> 300 < code \<longrightarrow>
      setIAPattern code spd s = (Inl (Error ''Invalid code''), s))"
proof -
  have "command (last (commandQueue (snd (setIAPattern 1 10 s)))) =
          [0x61, 0x00, 0x64, 0x0a, 0x0f, 0xde]"
    by (simp add: setIAPattern_def Let_def split_beta submit_result Buffer_from_def
        drop_bit_eq_div int_and_0xff_mod checksum_eq)
  moreover have "fst (setIAPattern 1 10 s) = Inr (promises s)"
    by (simp add: setIAPattern_def Let_def split_beta submit_result)
  moreover have "setIAPattern code spd s = (Inl (Error ''Invalid code''), s)"
    if "code < 1 \<or> 300 < code"
    using that by (auto simp: setIAPattern_def)
  ultimately show ?thesis by blast
qed

theorem setIAPattern_validation_witness:
  "setIAPattern 301 10 (constructor ''10.0.0.2'' 5577 defaultOptions) =
     (Inl (Error ''Invalid code''), constructor ''10.0.0.2'' 5577 defaultOptions) \<and>
   setIAPattern 0 10 (constructor ''10.0.0.2'' 5577 defaultOptions) =
     (Inl (Error ''Invalid code''), constructor ''10.0.0.2'' 5577 defaultOptions) \<and>
   socket (snd (setIAPattern 0 10 (constructor ''10.0.0.2'' 5577 defaultOptions))) = None"
  using setIAPattern_validation [of "constructor ''10.0.0.2'' 5577 defaultOptions" 301 10]
    setIAPattern_validation [of "constructor ''10.0.0.2'' 5577 defaultOptions" 0 10]
  by (simp add: constructor_def)

text \<open>
  Claim C7, as stated: the fourth byte of the frame of \<open>setIAPattern(code, speed)\<close> is
  the delay \<open>speedToDelay(speed)\<close>. It is not: \<open>setIAPattern\<close> pushes \<open>speed\<close> itself.
  For \<open>setIAPattern(1, 10)\<close> the frame is \<open>61 00 64 0a 0f\<close>, while the delay of speed
  10 is 28 (\<open>1c\<close>).
\<close>

theorem setIAPattern_delay_counterexample:
  "butlast (command (last (commandQueue (snd (setIAPattern 1 10
      (constructor ''10.0.0.2'' 5577 defaultOptions)))))) \<noteq>
   Buffer_from [0x61, 0, 100, speedToDelay 10, 0x0f]"
  by (simp add: setIAPattern_def Let_def split_beta submit_result Buffer_from_def
      drop_bit_eq_div int_and_0xff_mod js_eval toUint8_def)

text \<open>
  Claim C7, amended. For every code in [1,300] and every speed, \<open>setIAPattern\<close> submits
  the frame: 0x61, the two bytes of \<open>code + 99\<close> with the high byte first (read back as
  a 16-bit big-endian number they give \<open>code + 99\<close>), the speed itself stored as one
  byte, and 0x0f.
\<close>

theorem setIAPattern_frame:
  assumes "1 \<le> code" and "code \<le> 300"
  shows "fst (setIAPattern code spd s) = Inr (promises s) \<and>
         butlast (command (last (commandQueue (snd (setIAPattern code spd s))))) =
           [0x61, word_of_int ((code + 99) div 256), word_of_int ((code + 99) mod 256),
            toUint8 spd, 0x0f] \<and>
         unat (word_of_int ((code + 99) div 256) :: byte) * 256 +
           unat (word_of_int ((code + 99) mod 256) :: byte) = nat (code + 99)"
  using setIAPattern_bytes [OF assms] big_endian_code [OF assms] by simp

theorem setIAPattern_frame_witness:
  "(1::int) \<le> 300 \<and> (300::int) \<le> 300 \<and>
   butlast (command (last (commandQueue (snd (setIAPattern 300 10
      (constructor ''10.0.0.2'' 5577 defaultOptions)))))) = [0x61, 0x01, 0x8f, 0x0a, 0x0f]"
  using setIAPattern_frame [of 300 10 "constructor ''10.0.0.2'' 5577 defaultOptions"]
  by simp

section \<open>Custom patterns\<close>




section \<open>Decoding a query response\<close>

text \<open>
  Claim C10. For every response of at least 14 bytes whose byte 3 lies in [0x25,0x38]
  and is the code of no name of the pattern table, the continuation of \<open>queryState\<close>
  returns a state whose mode is \<open>pattern\<close> and whose pattern is null; the 16-bit
  big-endian number at offsets 3 and 4 is then at least 0x2500, above the range
  [0x64,0x18f] of the numeric patterns.
\<close>

theorem queryState_unnamed_pattern:
  assumes len: "14 \<le> length data"
    and lo: "0x25 \<le> unat (data ! 3)" and hi: "unat (data ! 3) \<le> 0x38"
    and tab: "unat (data ! 3) \<notin> snd ` set patterns"
  shows "(\<exists>state s'. queryState_then patterns data s = (Inr state, s') \<and>
            mode state = Some ''pattern'' \<and> pattern state = None) \<and>
         (\<exists>w. readUInt16BE data 3 = Inr w \<and> 0x2500 \<le> w)"
proof -
  have r8: "readUInt8 data i = Inr (unat (data ! i))" if "i < 14" for i
    using that len by (simp add: readUInt8_def)
  have r16: "readUInt16BE data 3 = Inr (unat (data ! 3) * 256 + unat (data ! 4))"
    using len by (simp add: readUInt16BE_def)
  have m: "determineMode data = Inr (Some ''pattern'')"
    using lo hi by (simp add: determineMode_def andThen_def r8)
  have f: "find (\<lambda>(patternName, code). code = unat (data ! 3)) patterns = None"
    using tab by (force simp: find_None_iff)
  have p: "determinePattern patterns data = Inr None"
    using lo hi f by (simp add: determinePattern_def andThen_def r8 r16)
  have "\<exists>state s'. queryState_then patterns data s = (Inr state, s') \<and>
            mode state = Some ''pattern'' \<and> pattern state = None"
    using len by (simp add: queryState_then_def decodeState_def m p r8 andThen_def Let_def)
  moreover have "\<exists>w. readUInt16BE data 3 = Inr w \<and> 0x2500 \<le> w"
    using lo by (simp add: r16)
  ultimately show ?thesis by blast
qed

theorem queryState_unnamed_pattern_witness:
  "14 \<le> length [0x81, 0x25, 0x23, 0x30, 0x21, 0x10, 1, 2, 3, 4, 5, 6, 7, 8 :: byte] \<and>
   (\<exists>state s'. queryState_then [(''seven_color_cross_fade'', 0x25)]
        [0x81, 0x25, 0x23, 0x30, 0x21, 0x10, 1, 2, 3, 4, 5, 6, 7, 8]
        (constructor ''10.0.0.2'' 5577 defaultOptions) = (Inr state, s') \<and>
      mode state = Some ''pattern'' \<and> pattern state = None)"
  using queryState_unnamed_pattern [of "[0x81, 0x25, 0x23, 0x30, 0x21, 0x10, 1, 2, 3, 4, 5, 6, 7, 8]"
      "[(''seven_color_cross_fade'', 0x25)]" "constructor ''10.0.0.2'' 5577 defaultOptions"]
  by simp

section \<open>The invariant of the queue manager\<close>

text \<open>
  What \<open>settle\<close>, \<open>endSocket\<close>, \<open>setTimeout\<close> and \<open>clearTimeout\<close> leave unchanged.
\<close>

lemma settle_fields [simp]:
  "commandQueue (settle p out s) = commandQueue s"
  "socket (settle p out s) = socket s"
  "opened (settle p out s) = opened s"
  "timers (settle p out s) = timers s"
  "writes (settle p out s) = writes s"
  "promises (settle p out s) = promises s"
  "receivedData (settle p out s) = receivedData s"
  "ended (settle p out s) = ended s"
  by (simp_all add: settle_def)

lemma settled_settle:
  "settled (settle p out s) =
     (if p \<in> fst ` set (settled s) then settled s else settled s @ [(p, out)])"
  by (simp add: settle_def)

lemma endSocket_fields [simp]:
  "commandQueue (endSocket s) = commandQueue s"
  "socket (endSocket s) = None"
  "opened (endSocket s) = opened s"
  "timers (endSocket s) = timers s"
  "writes (endSocket s) = writes s"
  "promises (endSocket s) = promises s"
  "settled (endSocket s) = settled s"
  "receivedData (endSocket s) = receivedData s"
  by (simp_all add: endSocket_def split: option.split)

lemma timer_fields [simp]:
  "commandQueue (setTimeout cb s) = commandQueue s"
  "socket (setTimeout cb s) = socket s"
  "opened (setTimeout cb s) = opened s"
  "timers (setTimeout cb s) = timers s @ [Some cb]"
  "writes (setTimeout cb s) = writes s"
  "promises (setTimeout cb s) = promises s"
  "settled (setTimeout cb s) = settled s"
  "receivedData (setTimeout cb s) = receivedData s"
  "commandQueue (clearTimeout h s) = commandQueue s"
  "socket (clearTimeout h s) = socket s"
  "opened (clearTimeout h s) = opened s"
  "timers (clearTimeout h s) = (timers s)[h := None]"
  "writes (clearTimeout h s) = writes s"
  "promises (clearTimeout h s) = promises s"
  "settled (clearTimeout h s) = settled s"
  "receivedData (clearTimeout h s) = receivedData s"
  by (simp_all add: setTimeout_def clearTimeout_def)

text \<open>The invariant reads six fields only, and the connect timers among the timers.\<close>

lemma queueInv_cong:
  assumes "queueInv s"
    and "settled s' = settled s" and "commandQueue s' = commandQueue s"
    and "socket s' = socket s" and "opened s' = opened s" and "writes s' = writes s"
    and "promises s' = promises s"
    and "\<And>p. Some (ConnectTimer p) \<in> set (timers s') \<Longrightarrow> Some (ConnectTimer p) \<in> set (timers s)"
  shows "queueInv s'"
  using assms unfolding queueInv_def doneOrHead_def inFlight_def settledIds_def
  by auto

lemma doneOrHead_cong:
  "settled s' = settled s \<Longrightarrow> commandQueue s' = commandQueue s \<Longrightarrow> doneOrHead s' p = doneOrHead s p"
  by (simp add: doneOrHead_def settledIds_def)

lemma inFlight_cong:
  "settled s' = settled s \<Longrightarrow> writes s' = writes s \<Longrightarrow> inFlight s' = inFlight s"
  by (simp add: inFlight_def settledIds_def)

lemma settledIds_cong: "settled s' = settled s \<Longrightarrow> settledIds s' = settledIds s"
  by (simp add: settledIds_def)

lemma set_update_None: "Some x \<in> set (xs[h := None]) \<Longrightarrow> Some x \<in> set xs"
  by (metis in_set_conv_nth length_list_update nth_list_update_eq nth_list_update_neq option.distinct(1))

lemma queueInv_distinct:
  "queueInv s \<Longrightarrow> distinct (settledIds s @ map pid (commandQueue s))"
  by (simp add: queueInv_def)

lemma head_unsettled:
  assumes "queueInv s" and "commandQueue s = c # cs"
  shows "pid c \<notin> fst ` set (settled s)"
  using queueInv_distinct [OF assms(1)] assms(2) by (auto simp: settledIds_def)

text \<open>Settling the head of the queue and removing it keeps the invariant.\<close>

lemma queueInv_finish:
  assumes inv: "queueInv s" and q: "commandQueue s = c # cs"
  shows "queueInv ((settle (pid c) out s)\<lparr>commandQueue := cs\<rparr>)"
proof -
  let ?s' = "(settle (pid c) out s)\<lparr>commandQueue := cs\<rparr>"
  have un: "pid c \<notin> fst ` set (settled s)" by (rule head_unsettled [OF inv q])
  have ids: "settledIds ?s' = settledIds s @ [pid c]"
    using un by (simp add: settledIds_def settled_settle)
  have A: "settledIds ?s' @ map pid (commandQueue ?s') = [0..<promises ?s']"
    using inv q ids by (simp add: queueInv_def)
  have B: "commandQueue ?s' \<noteq> [] \<longrightarrow> socket ?s' \<noteq> None"
    using inv q by (simp add: queueInv_def)
  have C: "\<forall>p \<in> set (opened ?s'). doneOrHead ?s' p"
    using inv q ids by (auto simp: queueInv_def doneOrHead_def)
  have D: "\<forall>p. Some (ConnectTimer p) \<in> set (timers ?s') \<longrightarrow> p \<in> set (opened ?s')"
    using inv by (simp add: queueInv_def)
  have E: "inFlight ?s' = {}"
    using inv q ids by (auto simp: queueInv_def inFlight_def)
  show ?thesis unfolding queueInv_def using A B C D E by blast
qed

lemma handleNextCommand_inv:
  assumes inv: "queueInv s"
  shows "\<exists>s'. handleNextCommand s = Inr s' \<and> queueInv s' \<and> settled s' = settled s \<and>
           commandQueue s' = commandQueue s \<and> receivedData s' = receivedData s \<and>
           (case commandQueue s of
              [] \<Rightarrow> socket s' = None \<and> writes s' = writes s
            | c # _ \<Rightarrow> \<exists>k. socket s = Some k \<and> socket s' = Some k \<and>
                             writes s' = writes s @ [(k, c)])"
proof (cases "commandQueue s")
  case Nil
  then have "handleNextCommand s = Inr (endSocket s)" by (simp add: handleNextCommand_def)
  moreover have "queueInv (endSocket s)"
    using inv Nil unfolding queueInv_def
    by (simp add: doneOrHead_cong [of "endSocket s" s] inFlight_cong [of "endSocket s" s]
        settledIds_cong [of "endSocket s" s])
  ultimately show ?thesis using Nil by simp
next
  case (Cons c cs)
  with inv obtain k where k: "socket s = Some k" by (auto simp: queueInv_def)
  let ?s' = "s\<lparr>writes := writes s @ [(k, c)]\<rparr>"
  have "handleNextCommand s = Inr ?s'" using Cons k by (simp add: handleNextCommand_def)
  moreover have "queueInv ?s'"
    using inv Cons k unfolding queueInv_def doneOrHead_def inFlight_def settledIds_def by auto
  ultimately show ?thesis using Cons k by simp
qed

lemma queueInv_finish':
  assumes inv: "queueInv s" and q: "commandQueue s = c # cs"
    and "settled s' = settled s @ [(pid c, out)]" and "commandQueue s' = cs"
    and "socket s' = socket s" and "opened s' = opened s" and "writes s' = writes s"
    and "promises s' = promises s"
    and "\<And>p. Some (ConnectTimer p) \<in> set (timers s') \<Longrightarrow> Some (ConnectTimer p) \<in> set (timers s)"
  shows "queueInv s'"
proof (rule queueInv_cong [OF queueInv_finish [OF inv q, of out]])
  show "settled s' = settled (settle (pid c) out s\<lparr>commandQueue := cs\<rparr>)"
    using head_unsettled [OF inv q] assms(3) by (simp add: settled_settle)
qed (use assms in simp_all)

lemma receiveData_True:
  assumes inv: "queueInv s0"
  shows "\<exists>s'. receiveData True d s0 = Inr s' \<and> queueInv s' \<and> receivedData s' = [] \<and>
           commandQueue s' = tl (commandQueue s0) \<and>
           settled s' = settled s0 @
             (case commandQueue s0 of [] \<Rightarrow> []
              | c # cs \<Rightarrow> [(pid c, Resolved (receivedData s0))]) \<and>
           (case tl (commandQueue s0) of
              [] \<Rightarrow> socket s' = None \<and> writes s' = writes s0
            | c # _ \<Rightarrow> \<exists>k. socket s' = Some k \<and> writes s' = writes s0 @ [(k, c)])"
proof -
  define s where "s = (case commandTimeout s0 of
                         Some h \<Rightarrow> (clearTimeout h s0)\<lparr>commandTimeout := None\<rparr>
                       | None \<Rightarrow> s0)"
  have f: "settled s = settled s0" "commandQueue s = commandQueue s0" "socket s = socket s0"
    "opened s = opened s0" "writes s = writes s0" "promises s = promises s0"
    "receivedData s = receivedData s0"
    by (simp_all add: s_def split: option.split)
  have t: "Some (ConnectTimer p) \<in> set (timers s) \<Longrightarrow> Some (ConnectTimer p) \<in> set (timers s0)" for p
    by (auto simp: s_def split: option.splits dest: set_update_None)
  define s3 where "s3 = (case commandQueue s of
                       [] \<Rightarrow> s
                     | finished_command # _ \<Rightarrow>
                         settle (pid finished_command) (Resolved (receivedData s)) s)
                    \<lparr>receivedData := [], commandQueue := tl (commandQueue s)\<rparr>"
  have r: "receiveData True d s0 = handleNextCommand s3"
    by (simp add: receiveData_def Let_def s_def s3_def split: list.split option.split)
  have inv3: "queueInv s3 \<and> receivedData s3 = [] \<and> commandQueue s3 = tl (commandQueue s0) \<and>
           writes s3 = writes s0 \<and>
           settled s3 = settled s0 @
             (case commandQueue s0 of [] \<Rightarrow> []
              | c # cs \<Rightarrow> [(pid c, Resolved (receivedData s0))])"
  proof (cases "commandQueue s0")
    case Nil
    have "queueInv s3"
      by (rule queueInv_cong [OF inv]) (use Nil f t in \<open>simp_all add: s3_def\<close>)
    then show ?thesis using Nil f by (simp add: s3_def)
  next
    case (Cons c cs)
    have un: "pid c \<notin> fst ` set (settled s0)" by (rule head_unsettled [OF inv Cons])
    have st: "settled s3 = settled s0 @ [(pid c, Resolved (receivedData s0))]"
      using Cons f un by (simp add: s3_def settled_settle)
    have "queueInv s3"
      by (rule queueInv_finish' [OF inv Cons st]) (use Cons f t in \<open>simp_all add: s3_def\<close>)
    then show ?thesis using Cons f st by (simp add: s3_def)
  qed
  from handleNextCommand_inv [of s3] inv3 obtain s' where
    h: "handleNextCommand s3 = Inr s'" "queueInv s'" "settled s' = settled s3"
      "commandQueue s' = commandQueue s3" "receivedData s' = receivedData s3"
      "(case commandQueue s3 of
          [] \<Rightarrow> socket s' = None \<and> writes s' = writes s3
        | c # _ \<Rightarrow> \<exists>k. socket s3 = Some k \<and> socket s' = Some k \<and>
                         writes s' = writes s3 @ [(k, c)])"
    by blast
  have nxt: "(case tl (commandQueue s0) of
               [] \<Rightarrow> socket s' = None \<and> writes s' = writes s0
             | c # _ \<Rightarrow> \<exists>k. socket s' = Some k \<and> writes s' = writes s0 @ [(k, c)])"
    using h(6) inv3 by (cases "tl (commandQueue s0)") auto
  show ?thesis using r h inv3 nxt by (intro exI [of _ s']) simp
qed

lemma handleCommandTimeout_inv:
  assumes inv: "queueInv s0"
  shows "\<exists>s'. handleCommandTimeout s0 = Inr s' \<and> queueInv s' \<and> receivedData s' = [] \<and>
           commandQueue s' = tl (commandQueue s0) \<and>
           settled s' = settled s0 @
             (case commandQueue s0 of [] \<Rightarrow> []
              | c # cs \<Rightarrow> [(pid c, Rejected (Error ''Command timed out''))]) \<and>
           (case tl (commandQueue s0) of
              [] \<Rightarrow> socket s' = None \<and> writes s' = writes s0
            | c # _ \<Rightarrow> \<exists>k. socket s' = Some k \<and> writes s' = writes s0 @ [(k, c)])"
proof -
  define s3 where "s3 = (case commandQueue s0 of
                       [] \<Rightarrow> s0\<lparr>commandTimeout := None\<rparr>
                     | timedout_command # _ \<Rightarrow>
                         settle (pid timedout_command) (Rejected (Error ''Command timed out''))
                           (s0\<lparr>commandTimeout := None\<rparr>))
                    \<lparr>receivedData := [], commandQueue := tl (commandQueue s0)\<rparr>"
  have r: "handleCommandTimeout s0 = handleNextCommand s3"
    by (simp add: handleCommandTimeout_def Let_def s3_def split: list.split)
  have inv3: "queueInv s3 \<and> receivedData s3 = [] \<and> commandQueue s3 = tl (commandQueue s0) \<and>
           writes s3 = writes s0 \<and>
           settled s3 = settled s0 @
             (case commandQueue s0 of [] \<Rightarrow> []
              | c # cs \<Rightarrow> [(pid c, Rejected (Error ''Command timed out''))])"
  proof (cases "commandQueue s0")
    case Nil
    have "queueInv s3"
      by (rule queueInv_cong [OF inv]) (use Nil in \<open>simp_all add: s3_def\<close>)
    then show ?thesis using Nil by (simp add: s3_def)
  next
    case (Cons c cs)
    have un: "pid c \<notin> fst ` set (settled s0)" by (rule head_unsettled [OF inv Cons])
    have st: "settled s3 = settled s0 @ [(pid c, Rejected (Error ''Command timed out''))]"
      using Cons un by (simp add: s3_def settled_settle)
    have "queueInv s3"
      by (rule queueInv_finish' [OF inv Cons st]) (use Cons in \<open>simp_all add: s3_def\<close>)
    then show ?thesis using Cons st by (simp add: s3_def)
  qed
  from handleNextCommand_inv [of s3] inv3 obtain s' where
    h: "handleNextCommand s3 = Inr s'" "queueInv s'" "settled s' = settled s3"
      "commandQueue s' = commandQueue s3" "receivedData s' = receivedData s3"
      "(case commandQueue s3 of
          [] \<Rightarrow> socket s' = None \<and> writes s' = writes s3
        | c # _ \<Rightarrow> \<exists>k. socket s3 = Some k \<and> socket s' = Some k \<and>
                         writes s' = writes s3 @ [(k, c)])"
    by blast
  have nxt: "(case tl (commandQueue s0) of
               [] \<Rightarrow> socket s' = None \<and> writes s' = writes s0
             | c # _ \<Rightarrow> \<exists>k. socket s' = Some k \<and> writes s' = writes s0 @ [(k, c)])"
    using h(6) inv3 by (cases "tl (commandQueue s0)") auto
  show ?thesis using r h inv3 nxt by (intro exI [of _ s']) simp
qed

lemma receiveData_False:
  assumes inv: "queueInv s0"
  shows "\<exists>s'. receiveData False d s0 = Inr s' \<and> queueInv s' \<and>
           receivedData s' = receivedData s0 @ d \<and>
           commandQueue s' = commandQueue s0 \<and> settled s' = settled s0"
proof -
  obtain s' where r: "receiveData False d s0 = Inr s'"
    by (simp add: receiveData_def Let_def)
  have f: "settled s' = settled s0" "commandQueue s' = commandQueue s0" "socket s' = socket s0"
    "opened s' = opened s0" "writes s' = writes s0" "promises s' = promises s0"
    "receivedData s' = receivedData s0 @ d"
    using r by (auto simp: receiveData_def Let_def split: option.splits)
  have t: "Some (ConnectTimer p) \<in> set (timers s') \<Longrightarrow> Some (ConnectTimer p) \<in> set (timers s0)" for p
    using r by (auto simp: receiveData_def Let_def split: option.splits dest!: set_update_None)
  have "queueInv s'" by (rule queueInv_cong [OF inv]) (use f t in simp_all)
  then show ?thesis using r f by simp
qed

lemma writeCallback_inv:
  assumes inv: "queueInv s"
  shows "\<exists>s'. writeCallback c s = Inr s' \<and> queueInv s'"
proof (cases "expectReply c")
  case False
  then show ?thesis using receiveData_True [OF inv, of "[]"] by (auto simp: writeCallback_def)
next
  case True
  then have "\<exists>s'. writeCallback c s = Inr s'"
    by (cases "commandTimeoutLength (options s)") (simp_all add: writeCallback_def Let_def)
  then obtain s' where r: "writeCallback c s = Inr s'" by blast
  have "queueInv s'"
    by (rule queueInv_cong [OF inv])
       (use r True in \<open>auto simp: writeCallback_def Let_def split: option.splits\<close>)
  then show ?thesis using r by simp
qed

lemma fold_settle_fields [simp]:
  "commandQueue (foldl (\<lambda>s c. settle (pid c) out s) s cs) = commandQueue s"
  "socket (foldl (\<lambda>s c. settle (pid c) out s) s cs) = socket s"
  "opened (foldl (\<lambda>s c. settle (pid c) out s) s cs) = opened s"
  "timers (foldl (\<lambda>s c. settle (pid c) out s) s cs) = timers s"
  "writes (foldl (\<lambda>s c. settle (pid c) out s) s cs) = writes s"
  "promises (foldl (\<lambda>s c. settle (pid c) out s) s cs) = promises s"
  "receivedData (foldl (\<lambda>s c. settle (pid c) out s) s cs) = receivedData s"
  by (induction cs arbitrary: s) simp_all

lemma fold_settle_fresh:
  "distinct (map pid cs) \<Longrightarrow> set (map pid cs) \<inter> fst ` set (settled s) = {} \<Longrightarrow>
   settled (foldl (\<lambda>s c. settle (pid c) out s) s cs) = settled s @ map (\<lambda>c. (pid c, out)) cs"
proof (induction cs arbitrary: s)
  case Nil
  then show ?case by simp
next
  case (Cons c cs)
  have 1: "settled (settle (pid c) out s) = settled s @ [(pid c, out)]"
    using Cons.prems by (simp add: settled_settle)
  have "set (map pid cs) \<inter> fst ` set (settled (settle (pid c) out s)) = {}"
    using Cons.prems 1 by auto
  with Cons.IH [of "settle (pid c) out s"] Cons.prems 1 show ?case by simp
qed

text \<open>
  The error handler called with a \<open>reject\<close> that is settled or belongs to the head of
  the queue: the whole queue is rejected, in queue order.
\<close>

lemma socketErrorHandler_settled:
  assumes inv: "queueInv s" and r: "doneOrHead s rej"
  shows "settled (socketErrorHandler err rej s) =
           settled s @ map (\<lambda>c. (pid c, Rejected err)) (commandQueue s)"
proof -
  let ?out = "Rejected err"
  define s3 where "s3 = endSocket (settle rej ?out (s\<lparr>preventDataSending := True\<rparr>))"
  have h: "settled (socketErrorHandler err rej s) =
             settled (foldl (\<lambda>s c. settle (pid c) ?out s) s3 (commandQueue s))"
    by (simp add: socketErrorHandler_def Let_def s3_def)
  have d: "distinct (settledIds s @ map pid (commandQueue s))" by (rule queueInv_distinct [OF inv])
  show ?thesis
  proof (cases "rej \<in> fst ` set (settled s)")
    case True
    then have s3: "settled s3 = settled s" by (simp add: s3_def settled_settle)
    have "settled (foldl (\<lambda>s c. settle (pid c) ?out s) s3 (commandQueue s)) =
            settled s3 @ map (\<lambda>c. (pid c, ?out)) (commandQueue s)"
      by (rule fold_settle_fresh) (use d s3 in \<open>auto simp: settledIds_def\<close>)
    then show ?thesis using h s3 by simp
  next
    case False
    with r obtain c cs where q: "commandQueue s = c # cs" and c: "pid c = rej"
      by (cases "commandQueue s") (auto simp: doneOrHead_def settledIds_def)
    have s3: "settled s3 = settled s @ [(pid c, ?out)]"
      using False c by (simp add: s3_def settled_settle)
    have "settled (foldl (\<lambda>s c. settle (pid c) ?out s) s3 (commandQueue s)) =
            settled (foldl (\<lambda>s c. settle (pid c) ?out s) s3 cs)"
      using q s3 by (simp add: settle_def)
    also have "\<dots> = settled s3 @ map (\<lambda>c. (pid c, ?out)) cs"
      by (rule fold_settle_fresh) (use d s3 q in \<open>auto simp: settledIds_def\<close>)
    finally show ?thesis using h s3 q by simp
  qed
qed

lemma socketErrorHandler_fields [simp]:
  "commandQueue (socketErrorHandler err rej s) = []"
  "socket (socketErrorHandler err rej s) = None"
  "opened (socketErrorHandler err rej s) = opened s"
  "timers (socketErrorHandler err rej s) = timers s"
  "writes (socketErrorHandler err rej s) = writes s"
  "promises (socketErrorHandler err rej s) = promises s"
  "receivedData (socketErrorHandler err rej s) = receivedData s"
  by (simp_all add: socketErrorHandler_def Let_def)

lemma socketErrorHandler_inv:
  assumes inv: "queueInv s" and r: "doneOrHead s rej"
  shows "queueInv (socketErrorHandler err rej s)"
proof -
  let ?s' = "socketErrorHandler err rej s"
  have ids: "settledIds ?s' = settledIds s @ map pid (commandQueue s)"
    using socketErrorHandler_settled [OF inv r, of err] by (simp add: settledIds_def comp_def)
  have A: "settledIds ?s' @ map pid (commandQueue ?s') = [0..<promises ?s']"
    using inv ids by (simp add: queueInv_def)
  have C: "\<forall>p \<in> set (opened ?s'). doneOrHead ?s' p"
  proof
    fix p assume "p \<in> set (opened ?s')"
    then have "doneOrHead s p" using inv by (simp add: queueInv_def)
    then show "doneOrHead ?s' p"
      using ids by (cases "commandQueue s") (auto simp: doneOrHead_def)
  qed
  have D: "\<forall>p. Some (ConnectTimer p) \<in> set (timers ?s') \<longrightarrow> p \<in> set (opened ?s')"
    using inv by (simp add: queueInv_def)
  have E: "inFlight ?s' = {}"
  proof -
    have "pid c \<in> set (settledIds ?s')" if "c \<in> snd ` set (writes s)" for c
    proof (cases "pid c \<in> set (settledIds s)")
      case True
      then show ?thesis using ids by simp
    next
      case False
      with that have "c \<in> inFlight s" by (simp add: inFlight_def)
      with inv have "commandQueue s \<noteq> [] \<and> hd (commandQueue s) = c" by (simp add: queueInv_def)
      then show ?thesis using ids by (cases "commandQueue s") auto
    qed
    then show ?thesis by (auto simp: inFlight_def)
  qed
  show ?thesis unfolding queueInv_def using A C D E by simp
qed

lemma sendCommand_fields:
  "settled (sendCommand buf er p s) = settled s"
  "promises (sendCommand buf er p s) = promises s"
  "writes (sendCommand buf er p s) = writes s"
  "receivedData (sendCommand buf er p s) = receivedData s"
  "commandQueue (sendCommand buf er p s) =
     commandQueue s @ [\<lparr>expectReply = er, pid = p, command = buf @ [of_nat (checksum buf)]\<rparr>]"
  by (simp_all add: sendCommand_def Let_def split: option.split)

lemma sendCommand_socket:
  "socket (sendCommand buf er p s) =
     (if commandQueue s = [] \<and> socket s = None then Some (length (opened s)) else socket s)"
  "opened (sendCommand buf er p s) =
     (if commandQueue s = [] \<and> socket s = None then opened s @ [p] else opened s)"
  by (simp_all add: sendCommand_def Let_def split: option.split)

lemma sendCommand_timers:
  "Some (ConnectTimer q) \<in> set (timers (sendCommand buf er p s)) \<Longrightarrow>
   Some (ConnectTimer q) \<in> set (timers s) \<or> (q = p \<and> commandQueue s = [] \<and> socket s = None)"
  by (auto simp: sendCommand_def Let_def split: option.splits if_splits)

lemma submit_inv:
  assumes inv: "queueInv s"
  shows "queueInv (snd (submit buf er s))"
proof -
  let ?p = "promises s"
  let ?s0 = "s\<lparr>promises := ?p + 1\<rparr>"
  let ?s' = "sendCommand buf er ?p ?s0"
  let ?e = "\<lparr>expectReply = er, pid = ?p, command = buf @ [of_nat (checksum buf)]\<rparr>"
  have s': "snd (submit buf er s) = ?s'" by (simp add: submit_def Let_def)
  have st: "settled ?s' = settled s" and q: "commandQueue ?s' = commandQueue s @ [?e]"
    and w: "writes ?s' = writes s" and pr: "promises ?s' = ?p + 1"
    by (simp_all add: sendCommand_fields)
  have ids: "settledIds ?s' = settledIds s" using st by (simp add: settledIds_def)
  have A: "settledIds ?s' @ map pid (commandQueue ?s') = [0..<promises ?s']"
    using inv ids q pr by (simp add: queueInv_def)
  have B: "commandQueue ?s' \<noteq> [] \<longrightarrow> socket ?s' \<noteq> None"
    using inv by (auto simp: sendCommand_socket queueInv_def)
  have keep: "doneOrHead ?s' x" if "doneOrHead s x" for x
    using that ids q by (cases "commandQueue s") (auto simp: doneOrHead_def)
  have C: "\<forall>x \<in> set (opened ?s'). doneOrHead ?s' x"
  proof
    fix x assume x: "x \<in> set (opened ?s')"
    show "doneOrHead ?s' x"
    proof (cases "x \<in> set (opened s)")
      case True
      then show ?thesis using inv keep by (simp add: queueInv_def)
    next
      case False
      with x have "x = ?p \<and> commandQueue s = []"
        by (auto simp: sendCommand_socket split: if_splits)
      then show ?thesis using q by (simp add: doneOrHead_def)
    qed
  qed
  have D: "\<forall>x. Some (ConnectTimer x) \<in> set (timers ?s') \<longrightarrow> x \<in> set (opened ?s')"
  proof (intro allI impI)
    fix x assume "Some (ConnectTimer x) \<in> set (timers ?s')"
    from sendCommand_timers [OF this]
    show "x \<in> set (opened ?s')" using inv by (auto simp: sendCommand_socket queueInv_def)
  qed
  have E: "\<forall>c \<in> inFlight ?s'. commandQueue ?s' \<noteq> [] \<and> hd (commandQueue ?s') = c"
  proof
    fix c assume "c \<in> inFlight ?s'"
    then have "c \<in> inFlight s" using ids w by (simp add: inFlight_def)
    with inv have "commandQueue s \<noteq> [] \<and> hd (commandQueue s) = c" by (simp add: queueInv_def)
    then show "commandQueue ?s' \<noteq> [] \<and> hd (commandQueue ?s') = c" using q by simp
  qed
  show ?thesis unfolding s' queueInv_def using A B C D E by blast
qed

lemma connectCallback_inv:
  assumes inv: "queueInv s0"
  shows "\<exists>s'. connectCallback s0 = Inr s' \<and> queueInv s'"
proof -
  define s where "s = (case connectTimeout s0 of
                 Some h \<Rightarrow> (clearTimeout h s0)\<lparr>connectTimeout := None\<rparr>
               | None \<Rightarrow> s0)"
  have "queueInv s"
    by (rule queueInv_cong [OF inv])
       (auto simp: s_def split: option.splits dest: set_update_None)
  then show ?thesis
    using handleNextCommand_inv [of s] by (auto simp: connectCallback_def Let_def s_def [symmetric])
qed

lemma constructor_inv: "queueInv (constructor ip prt opts)"
  by (simp add: queueInv_def constructor_def settledIds_def inFlight_def)

lemma step_inv:
  assumes inv: "queueInv s" and st: "step s ev = Some r"
  shows "\<exists>s'. r = Inr s' \<and> queueInv s'"
proof (cases ev)
  case (Submit buf er)
  with st have "r = Inr (snd (submit buf er s))" by (simp add: step_def)
  then show ?thesis using submit_inv [OF inv] by simp
next
  case (Connected k)
  with st have "r = connectCallback s" by (simp add: step_def split: if_splits)
  then show ?thesis using connectCallback_inv [OF inv] by simp
next
  case (SockError k err)
  with st have k: "k < length (opened s)" and r: "r = Inr (socketErrorHandler err (opened s ! k) s)"
    by (simp_all add: step_def split: if_splits)
  from k inv have "doneOrHead s (opened s ! k)" by (simp add: queueInv_def)
  then show ?thesis using r socketErrorHandler_inv [OF inv] by simp
next
  case (SockData k d)
  with st have "r = receiveData False d s" by (simp add: step_def split: if_splits)
  then show ?thesis using receiveData_False [OF inv, of d] by auto
next
  case (WriteDone k)
  with st have "r = writeCallback (snd (writes s ! k)) s" by (simp add: step_def split: if_splits)
  then show ?thesis using writeCallback_inv [OF inv] by simp
next
  case (Fire h)
  with st obtain cb where h: "h < length (timers s)" and cb: "timers s ! h = Some cb"
    and r: "r = fireTimer cb (s\<lparr>timers := (timers s)[h := None]\<rparr>)"
    by (auto simp: step_def split: if_splits option.splits)
  let ?s = "s\<lparr>timers := (timers s)[h := None]\<rparr>"
  have inv': "queueInv ?s"
    by (rule queueInv_cong [OF inv]) (auto dest: set_update_None)
  show ?thesis
  proof (cases cb)
    case ReceiveTimer
    then show ?thesis using r receiveData_True [OF inv', of "[]"] by (auto simp: fireTimer_def)
  next
    case CommandTimer
    then show ?thesis using r handleCommandTimeout_inv [OF inv'] by (auto simp: fireTimer_def)
  next
    case (ConnectTimer p)
    with h cb have "Some (ConnectTimer p) \<in> set (timers s)" by (metis nth_mem)
    with inv have "doneOrHead s p" by (simp add: queueInv_def)
    then have "doneOrHead ?s p" by (simp add: doneOrHead_def settledIds_def)
    then show ?thesis using r ConnectTimer socketErrorHandler_inv [OF inv'] by (simp add: fireTimer_def)
  qed
qed

lemma run_inv:
  "queueInv s \<Longrightarrow> run s evs = Some r \<Longrightarrow> \<exists>s'. r = Inr s' \<and> queueInv s'"
proof (induction evs arbitrary: s)
  case Nil
  then show ?case by auto
next
  case (Cons ev evs)
  from Cons.prems(2) obtain r1 where r1: "step s ev = Some r1"
    by (cases "step s ev") auto
  from step_inv [OF Cons.prems(1) r1] obtain s1 where s1: "r1 = Inr s1" "queueInv s1" by blast
  with Cons.prems(2) r1 have "run s1 evs = Some r" by simp
  from Cons.IH [OF s1(2) this] show ?case .
qed



lemmas exec_defs = step_def submit_def sendCommand_def connectCallback_def
  handleNextCommand_def receiveData_def handleCommandTimeout_def writeCallback_def
  socketErrorHandler_def fireTimer_def settle_def setTimeout_def clearTimeout_def
  endSocket_def constructor_def defaultOptions_def checksum_eq Let_def

section \<open>Order of settling\<close>




section \<open>Socket errors\<close>

lemma fresh_connection:
  assumes "commandQueue s = []" and "socket s = None"
  shows "\<exists>s''. step s (Submit buf er) = Some (Inr s'') \<and>
           socket s'' = Some (length (opened s)) \<and>
           opened s'' = opened s @ [promises s] \<and>
           map pid (commandQueue s'') = [promises s]"
  using assms
  by (simp add: step_def submit_def Let_def sendCommand_socket sendCommand_fields)

text \<open>
  Claim C3. Take a state reached by any execution from construction in which the queue
  holds \<open>K \<ge> 1\<close> commands, and a socket-level error: the \<open>error\<close> event of a socket
  with the error \<open>err\<close>, or the firing of a pending connect timer, for which \<open>err\<close> is
  \<open>Error('Connection timeout reached')\<close>. The handler does not throw; it rejects all
  \<open>K\<close> queued commands with \<open>err\<close>, in queue order; afterwards the queue is empty and
  the socket is null; and the next submission opens a new socket: one more
  \<open>net.connect\<close>, whose socket becomes the socket of the instance.
\<close>

theorem socket_error_rejects_queue:
  assumes reach: "run (constructor ip prt opts) evs = Some (Inr s)"
    and queued: "commandQueue s \<noteq> []"
    and ev: "(ev = SockError k err \<and> k < length (opened s)) \<or>
             (ev = Fire h \<and> h < length (timers s) \<and> timers s ! h = Some (ConnectTimer p) \<and>
              err = Error ''Connection timeout reached'')"
  shows "\<exists>s'. step s ev = Some (Inr s') \<and>
           settled s' = settled s @ map (\<lambda>c. (pid c, Rejected err)) (commandQueue s) \<and>
           (\<forall>c \<in> set (commandQueue s). (pid c, Rejected err) \<in> set (settled s')) \<and>
           commandQueue s' = [] \<and> socket s' = None \<and>
           (\<forall>buf er. \<exists>s''. step s' (Submit buf er) = Some (Inr s'') \<and>
              socket s'' = Some (length (opened s')) \<and>
              opened s'' = opened s' @ [promises s'] \<and>
              map pid (commandQueue s'') = [promises s'])"
proof -
  from run_inv [OF constructor_inv reach] have inv: "queueInv s" by simp
  have "\<exists>s'. step s ev = Some (Inr s') \<and>
           settled s' = settled s @ map (\<lambda>c. (pid c, Rejected err)) (commandQueue s) \<and>
           commandQueue s' = [] \<and> socket s' = None"
    using ev
  proof (elim disjE conjE)
    assume e: "ev = SockError k err" and k: "k < length (opened s)"
    from k inv have "doneOrHead s (opened s ! k)" by (simp add: queueInv_def)
    from socketErrorHandler_settled [OF inv this, of err] e k show ?thesis
      by (simp add: step_def)
  next
    assume e: "ev = Fire h" and h: "h < length (timers s)"
      and cb: "timers s ! h = Some (ConnectTimer p)"
      and err: "err = Error ''Connection timeout reached''"
    let ?s = "s\<lparr>timers := (timers s)[h := None]\<rparr>"
    have inv': "queueInv ?s"
      by (rule queueInv_cong [OF inv]) (auto dest: set_update_None)
    from h cb have "Some (ConnectTimer p) \<in> set (timers s)" by (metis nth_mem)
    with inv have "doneOrHead s p" by (simp add: queueInv_def)
    then have "doneOrHead ?s p" by (simp add: doneOrHead_def settledIds_def)
    from socketErrorHandler_settled [OF inv' this, of err] e h cb err show ?thesis
      by (simp add: step_def fireTimer_def)
  qed
  then obtain s' where s': "step s ev = Some (Inr s')"
    "settled s' = settled s @ map (\<lambda>c. (pid c, Rejected err)) (commandQueue s)"
    "commandQueue s' = []" "socket s' = None"
    by blast
  have all: "\<forall>c \<in> set (commandQueue s). (pid c, Rejected err) \<in> set (settled s')"
    using s'(2) by auto
  show ?thesis
    using s' all fresh_connection [OF s'(3,4)] by blast
qed

theorem socket_error_rejects_queue_witness:
  "\<exists>s s'. run (constructor ''10.0.0.2'' 5577 defaultOptions)
       [Submit [0x81, 0x8a, 0x8b] True, Submit [0x71, 0x23, 0x0f] True, Connected 0,
        WriteDone 0] = Some (Inr s) \<and>
     map pid (commandQueue s) = [0, 1] \<and> opened s = [0] \<and>
     step s (SockError 0 (Error ''ECONNRESET'')) = Some (Inr s') \<and>
     settled s' = [(0, Rejected (Error ''ECONNRESET'')), (1, Rejected (Error ''ECONNRESET''))] \<and>
     commandQueue s' = [] \<and> socket s' = None \<and>
     (\<exists>s''. step s' (Submit [0x71, 0x24, 0x0f] True) = Some (Inr s'') \<and>
        socket s'' = Some 1 \<and> opened s'' = [0, 2])"
proof -
  have "\<exists>s. run (constructor ''10.0.0.2'' 5577 defaultOptions)
       [Submit [0x81, 0x8a, 0x8b] True, Submit [0x71, 0x23, 0x0f] True, Connected 0,
        WriteDone 0] = Some (Inr s) \<and>
     map pid (commandQueue s) = [0, 1] \<and> opened s = [0] \<and> settled s = [] \<and>
     promises s = 2"
    by (simp add: exec_defs)
  then obtain s where
    a: "run (constructor ''10.0.0.2'' 5577 defaultOptions)
       [Submit [0x81, 0x8a, 0x8b] True, Submit [0x71, 0x23, 0x0f] True, Connected 0,
        WriteDone 0] = Some (Inr s)"
    and q: "map pid (commandQueue s) = [0, 1]" and o: "opened s = [0]"
    and st: "settled s = []" and pr: "promises s = 2"
    by auto
  from q have ne: "commandQueue s \<noteq> []" by auto
  have ev: "(SockError 0 (Error ''ECONNRESET'') = SockError 0 (Error ''ECONNRESET'') \<and>
              0 < length (opened s)) \<or>
            (SockError 0 (Error ''ECONNRESET'') = Fire 0 \<and> 0 < length (timers s) \<and>
              timers s ! 0 = Some (ConnectTimer 0) \<and>
              Error ''ECONNRESET'' = Error ''Connection timeout reached'')"
    using o by simp
  from socket_error_rejects_queue [OF a ne ev]
  obtain s' where s': "step s (SockError 0 (Error ''ECONNRESET'')) = Some (Inr s')"
    "settled s' = settled s @ map (\<lambda>c. (pid c, Rejected (Error ''ECONNRESET''))) (commandQueue s)"
    "commandQueue s' = []" "socket s' = None"
    "\<forall>buf er. \<exists>s''. step s' (Submit buf er) = Some (Inr s'') \<and>
              socket s'' = Some (length (opened s')) \<and>
              opened s'' = opened s' @ [promises s'] \<and>
              map pid (commandQueue s'') = [promises s']"
    by blast
  from q have m: "map (\<lambda>c. (pid c, Rejected (Error ''ECONNRESET''))) (commandQueue s) =
      [(0, Rejected (Error ''ECONNRESET'')), (1, Rejected (Error ''ECONNRESET''))]"
    by (auto simp: map_eq_Cons_conv)
  from s'(1) o pr have f: "opened s' = [0]" "promises s' = 2"
    by (auto simp: step_def)
  from s'(5) obtain s'' where
    "step s' (Submit [0x71, 0x24, 0x0f] True) = Some (Inr s'')"
    "socket s'' = Some (length (opened s'))" "opened s'' = opened s' @ [promises s']"
    by blast
  with a q o s' st m f show ?thesis by auto
qed

section \<open>Commands that expect no reply\<close>

text \<open>
  Claim C4. Take a state reached by any execution from construction, and a command \<open>c\<close>
  with \<open>expectReply\<close> false that has been written to the socket and is not settled
  yet; let the callback of that write run. Then \<open>c\<close> is the head of the queue; the
  callback does not throw and resolves the promise of \<open>c\<close>, with the bytes buffered at
  that moment, whatever they are, none included; the continuation
  \<open>data.length > 0 || !ack\<close> of the facade, whose \<open>ack\<close> is the flag it passed as
  \<open>expectReply\<close>, turns them into \<open>true\<close>; the head is removed from the queue; and
  the next entry, if there is one, is written to the socket (otherwise the socket is
  closed).
\<close>

theorem no_reply_settles_on_write:
  assumes reach: "run (constructor ip prt opts) evs = Some (Inr s)"
    and w: "k < length (writes s)" "snd (writes s ! k) = c"
    and un: "pid c \<notin> fst ` set (settled s)"
    and nr: "\<not> expectReply c"
  shows "\<exists>cs s'. commandQueue s = c # cs \<and>
           step s (WriteDone k) = Some (Inr s') \<and>
           settled s' = settled s @ [(pid c, Resolved (receivedData s))] \<and>
           thenAck (expectReply c) (Resolved (receivedData s)) = Inr True \<and>
           commandQueue s' = cs \<and>
           (case cs of
              [] \<Rightarrow> socket s' = None \<and> writes s' = writes s
            | c' # _ \<Rightarrow> \<exists>j. socket s' = Some j \<and> writes s' = writes s @ [(j, c')])"
proof -
  from run_inv [OF constructor_inv reach] have inv: "queueInv s" by simp
  from w have "c \<in> snd ` set (writes s)" by (metis image_eqI nth_mem)
  with un have "c \<in> inFlight s" by (simp add: inFlight_def settledIds_def)
  with inv have "commandQueue s \<noteq> [] \<and> hd (commandQueue s) = c" by (simp add: queueInv_def)
  then obtain cs where q: "commandQueue s = c # cs" by (cases "commandQueue s") auto
  have st: "step s (WriteDone k) = Some (receiveData True [] s)"
    using w nr by (simp add: step_def writeCallback_def)
  have ack: "thenAck (expectReply c) (Resolved (receivedData s)) = Inr True"
    using nr by (simp add: thenAck_def)
  from receiveData_True [OF inv, of "[]"] q st ack show ?thesis by auto
qed

theorem no_reply_settles_on_write_witness:
  "\<exists>s s' c. run (constructor ''10.0.0.2'' 5577 defaultOptions)
       [Submit [0x71, 0x23, 0x0f] False, Submit [0x71, 0x24, 0x0f] False, Connected 0,
        SockData 0 [0x30]] = Some (Inr s) \<and>
     0 < length (writes s) \<and> snd (writes s ! 0) = c \<and>
     pid c \<notin> fst ` set (settled s) \<and> \<not> expectReply c \<and>
     receivedData s = [0x30] \<and>
     step s (WriteDone 0) = Some (Inr s') \<and>
     settled s' = [(0, Resolved [0x30])] \<and> commandQueue s' = tl (commandQueue s) \<and>
     thenAck False (Resolved [0x30]) = Inr True"
proof -
  have "\<exists>s c. run (constructor ''10.0.0.2'' 5577 defaultOptions)
       [Submit [0x71, 0x23, 0x0f] False, Submit [0x71, 0x24, 0x0f] False, Connected 0,
        SockData 0 [0x30]] = Some (Inr s) \<and>
     0 < length (writes s) \<and> snd (writes s ! 0) = c \<and>
     pid c \<notin> fst ` set (settled s) \<and> \<not> expectReply c \<and>
     receivedData s = [0x30] \<and> settled s = [] \<and> pid c = 0"
    by (simp add: exec_defs)
  then obtain s c where
    a: "run (constructor ''10.0.0.2'' 5577 defaultOptions)
       [Submit [0x71, 0x23, 0x0f] False, Submit [0x71, 0x24, 0x0f] False, Connected 0,
        SockData 0 [0x30]] = Some (Inr s)"
    and w: "0 < length (writes s)" "snd (writes s ! 0) = c"
    and un: "pid c \<notin> fst ` set (settled s)" and nr: "\<not> expectReply c"
    and d: "receivedData s = [0x30]" "settled s = []" "pid c = 0"
    by auto
  from no_reply_settles_on_write [OF a w un nr] a w un nr d show ?thesis
    by auto
qed

section \<open>The receive buffer\<close>

text \<open>
  Claim C9. The buffer is emptied when a command finishes with success
  (\<open>receiveData(true)\<close>) and when it finishes with a timeout (\<open>handleCommandTimeout\<close>),
  but \<open>socketErrorHandler\<close> leaves it as it is. In the execution below a query is
  written, the byte \<open>30\<close> arrives, and the socket fails before the receive timer fires:
  the query is rejected and the buffer still holds \<open>30\<close>. A second command is then
  submitted; the receive timer of the first, still pending, fires and resolves the
  second command with the byte received for the first.
\<close>

theorem receive_buffer_survives_socket_error:
  "\<exists>s s'. run (constructor ''10.0.0.2'' 5577 defaultOptions)
       [Submit [0x81, 0x8a, 0x8b] True, Connected 0, WriteDone 0, SockData 0 [0x30],
        SockError 0 (Error ''ECONNRESET'')] = Some (Inr s) \<and>
     settled s = [(0, Rejected (Error ''ECONNRESET''))] \<and>
     commandQueue s = [] \<and>
     receivedData s = [0x30] \<and>
     run s [Submit [0x71, 0x23, 0x0f] True, Fire 1] = Some (Inr s') \<and>
     settled s' = [(0, Rejected (Error ''ECONNRESET'')), (1, Resolved [0x30])]"
  by (simp add: exec_defs)

end
